theory Spec2Isabelle
  imports Main
begin

section \<open>Data model of cppcmb.hpp\<close>

text \<open>
  The library is generic in the data its combinators produce; C++ resolves the shapes
  statically. The embedding uses one universe of values: \<open>Atom\<close> is any value that is
  neither a \<^verbatim>\<open>std::tuple\<close>, a \<^verbatim>\<open>std::optional\<close> nor a collection (a token, a
  number, a syntax tree node), \<open>Tuple\<close> is a \<^verbatim>\<open>std::tuple\<close> with its elements in order,
  \<open>Optional\<close> is a \<^verbatim>\<open>std::optional\<close> and \<open>Collection\<close> is the container that the
  repetition combinators fill through \<^verbatim>\<open>std::back_inserter\<close>.
\<close>

datatype 'a data =
    Atom 'a
  | Tuple "'a data list"
  | Optional "'a data option"
  | Collection "'a data list"

text \<open>
  \<^verbatim>\<open>result_type\<close> is \<^verbatim>\<open>std::optional<std::pair<Data, TokenIterator>>\<close>: \<open>None\<close> is the
  disengaged optional (the combinator fails), \<open>Some (d, it)\<close> carries the data and the
  position after the match.

  A call of a C++ function need not return a defined value: \<^verbatim>\<open>cmb_rep_fn\<close> loops while
  its argument succeeds, and \<^verbatim>\<open>cmb_one_fn\<close> dereferences its iterator unchecked. A
  combinator is therefore a function into \<open>result_type option\<close>, where the outer \<open>None\<close>
  says that the call has no defined return value (it runs forever or its behaviour is
  undefined) and the outer \<open>Some r\<close> that it returns \<open>r\<close>.
\<close>

type_synonym ('a, 'c) result_type = "('a data \<times> 'c) option"

type_synonym ('a, 'c) combinator = "'c \<Rightarrow> ('a, 'c) result_type option"

text \<open>
  \<^verbatim>\<open>expected<T>\<close> is the library's private optional for a transformation that can fail.
  A mapper receives the elements of the tuple it is applied to (\<^verbatim>\<open>std::apply\<close>) and, like
  every call, may have no defined return value.
\<close>

type_synonym 'a expected = "'a data option"

datatype 'a mapper =
    Total "'a data list \<Rightarrow> 'a data option"
  | Fallible "'a data list \<Rightarrow> 'a expected option"


section \<open>Tuple helpers\<close>

text \<open>\<^verbatim>\<open>as_tuple\<close>: a tuple is passed on, anything else is wrapped by \<^verbatim>\<open>std::make_tuple\<close>.
  The tuple is given by the list of its elements.\<close>

fun as_tuple :: "'a data \<Rightarrow> 'a data list" where
  "as_tuple (Tuple ts) = ts"
| "as_tuple (Atom a) = [Atom a]"
| "as_tuple (Optional v) = [Optional v]"
| "as_tuple (Collection vs) = [Collection vs]"

text \<open>\<^verbatim>\<open>unwrap_tuple\<close>: only the specialisation for \<^verbatim>\<open>std::tuple<T>\<close>, a tuple of exactly
  one element, takes the element out; every other argument is returned as it is.\<close>

fun unwrap_tuple :: "'a data \<Rightarrow> 'a data" where
  "unwrap_tuple (Tuple [t]) = t"
| "unwrap_tuple v = v"

text \<open>\<^verbatim>\<open>std::tuple_cat\<close> of two tuples.\<close>

definition tuple_cat :: "'a data list \<Rightarrow> 'a data list \<Rightarrow> 'a data" where
  "tuple_cat xs ys = Tuple (xs @ ys)"

definition make_result :: "'a data \<Rightarrow> 'c \<Rightarrow> ('a, 'c) result_type" where
  "make_result d it = Some (d, it)"


section \<open>Combinators\<close>

text \<open>\<^verbatim>\<open>cmb_succ_fn\<close> succeeds with the empty tuple and does not move.\<close>

definition cmb_succ_fn :: "('a, 'c) combinator" where
  "cmb_succ_fn it = Some (make_result (Tuple []) it)"

text \<open>
  \<^verbatim>\<open>cmb_one_fn\<close> returns \<^verbatim>\<open>make_result(*it, std::next(it))\<close>. The iterator is a position
  in the token container \<open>toks\<close>; \<open>length toks\<close> is the end iterator. The source has no end
  check and no way to make one (a combinator receives the iterator alone), so the
  dereference of a position at or past the end is undefined behaviour: the call has no
  defined return value.
\<close>

definition cmb_one_fn :: "'a data list \<Rightarrow> ('a, nat) combinator" where
  "cmb_one_fn toks it =
     (if it < length toks then Some (make_result (toks ! it) (Suc it)) else None)"

text \<open>The number of tokens between a position and the end of the input.\<close>

definition distance_to_end :: "'a data list \<Rightarrow> nat \<Rightarrow> nat" where
  "distance_to_end toks it = length toks - it"

text \<open>\<^verbatim>\<open>cmb_opt_fn\<close>.\<close>

definition cmb_opt_fn :: "('a, 'c) combinator \<Rightarrow> ('a, 'c) combinator" where
  "cmb_opt_fn Combinator it =
     (case Combinator it of
        None \<Rightarrow> None
      | Some res \<Rightarrow>
          (case res of
             None \<Rightarrow> Some (make_result (Optional None) it)
           | Some (d, it') \<Rightarrow> Some (make_result (Optional (Some d)) it')))"

text \<open>\<^verbatim>\<open>cmb_seq_fn\<close>: the variadic template is the list of combinators, the overload
  without combinators is the empty list.\<close>

fun cmb_seq_fn :: "('a, 'c) combinator list \<Rightarrow> ('a, 'c) combinator" where
  "cmb_seq_fn [] it = Some (make_result (Tuple []) it)"
| "cmb_seq_fn (First # Rest) it =
     (case First it of
        None \<Rightarrow> None
      | Some first \<Rightarrow>
          (case first of
             None \<Rightarrow> Some None
           | Some (fd, fit) \<Rightarrow>
               (case cmb_seq_fn Rest fit of
                  None \<Rightarrow> None
                | Some rest \<Rightarrow>
                    (case rest of
                       None \<Rightarrow> Some None
                     | Some (rd, rit) \<Rightarrow>
                         Some (make_result
                           (unwrap_tuple (tuple_cat (as_tuple fd) (as_tuple rd))) rit)))))"

text \<open>\<^verbatim>\<open>cmb_alt_fn\<close>: every alternative is called with the same \<^verbatim>\<open>it\<close>.\<close>

fun cmb_alt_fn :: "('a, 'c) combinator list \<Rightarrow> ('a, 'c) combinator" where
  "cmb_alt_fn [] it = Some None"
| "cmb_alt_fn (First # Rest) it =
     (case First it of
        None \<Rightarrow> None
      | Some first \<Rightarrow>
          (case first of
             Some r \<Rightarrow> Some first
           | None \<Rightarrow> cmb_alt_fn Rest it))"

text \<open>
  \<^verbatim>\<open>cmb_rep_fn\<close>: the \<^verbatim>\<open>while (true)\<close> loop, with the collection \<open>result\<close> and the
  position \<open>it\<close> as its state. The loop has no bound, so it is a partial function:
  \<open>None\<close> when it does not return.
\<close>

partial_function (option) cmb_rep_loop ::
  "('a, 'c) combinator \<Rightarrow> 'a data list \<Rightarrow> 'c \<Rightarrow> ('a, 'c) result_type option" where
  "cmb_rep_loop Combinator result it =
     (case Combinator it of
        None \<Rightarrow> None
      | Some res \<Rightarrow>
          (case res of
             None \<Rightarrow> Some (make_result (Collection result) it)
           | Some (d, it') \<Rightarrow> cmb_rep_loop Combinator (result @ [d]) it'))"

definition cmb_rep_fn :: "('a, 'c) combinator \<Rightarrow> ('a, 'c) combinator" where
  "cmb_rep_fn Combinator it = cmb_rep_loop Combinator [] it"

text \<open>
  \<^verbatim>\<open>cmb_rep1_fn\<close> reads \<^verbatim>\<open>res->first.empty()\<close> from the result of \<^verbatim>\<open>cmb_rep_fn\<close>
  without a check: on a disengaged optional that is undefined. (\<^verbatim>\<open>cmb_rep_fn\<close> never
  returns one, and always returns a collection; the other branches are there to make the
  function total.)
\<close>

definition cmb_rep1_fn :: "('a, 'c) combinator \<Rightarrow> ('a, 'c) combinator" where
  "cmb_rep1_fn Combinator it =
     (case cmb_rep_fn Combinator it of
        None \<Rightarrow> None
      | Some res \<Rightarrow>
          (case res of
             None \<Rightarrow> None
           | Some (d, it') \<Rightarrow>
               (case d of
                  Collection vs \<Rightarrow> if vs = [] then Some None else Some res
                | _ \<Rightarrow> None)))"

text \<open>\<^verbatim>\<open>cmb_map_impl<RetTy, ...>::pass\<close>, the mapper cannot fail.\<close>

definition cmb_map_impl ::
  "('a, 'c) combinator \<Rightarrow> ('a data list \<Rightarrow> 'a data option) \<Rightarrow> ('a, 'c) combinator" where
  "cmb_map_impl Combinator Mapper it =
     (case Combinator it of
        None \<Rightarrow> None
      | Some res \<Rightarrow>
          (case res of
             Some (d, it') \<Rightarrow>
               (case Mapper (as_tuple d) of
                  None \<Rightarrow> None
                | Some m \<Rightarrow> Some (make_result (unwrap_tuple m) it'))
           | None \<Rightarrow> Some None))"

text \<open>\<^verbatim>\<open>cmb_map_impl<expected<T>, ...>::pass\<close>, the mapper returns an \<^verbatim>\<open>expected\<close>.\<close>

definition cmb_map_impl_expected ::
  "('a, 'c) combinator \<Rightarrow> ('a data list \<Rightarrow> 'a expected option) \<Rightarrow> ('a, 'c) combinator" where
  "cmb_map_impl_expected Combinator Mapper it =
     (case Combinator it of
        None \<Rightarrow> None
      | Some res \<Rightarrow>
          (case res of
             Some (d, it') \<Rightarrow>
               (case Mapper (as_tuple d) of
                  None \<Rightarrow> None
                | Some transformed \<Rightarrow>
                    (case transformed of
                       Some t \<Rightarrow> Some (make_result (unwrap_tuple t) it')
                     | None \<Rightarrow> Some None))
           | None \<Rightarrow> Some None))"

text \<open>\<^verbatim>\<open>cmb_map_fn\<close> chooses the implementation by the return type of the mapper.\<close>

fun cmb_map_fn :: "('a, 'c) combinator \<Rightarrow> 'a mapper \<Rightarrow> ('a, 'c) combinator" where
  "cmb_map_fn Combinator (Total Mapper) it = cmb_map_impl Combinator Mapper it"
| "cmb_map_fn Combinator (Fallible Mapper) it = cmb_map_impl_expected Combinator Mapper it"

text \<open>\<^verbatim>\<open>filter_impl\<close>: the arguments come back as an \<^verbatim>\<open>expected\<close>, unwrapped, when the
  predicate holds of them.\<close>

definition filter_impl :: "('a data list \<Rightarrow> bool) \<Rightarrow> 'a data list \<Rightarrow> 'a expected option" where
  "filter_impl Predicate args =
     (if Predicate args then Some (Some (unwrap_tuple (Tuple args))) else Some None)"


section \<open>Folds\<close>

text \<open>
  \<^verbatim>\<open>foldl_impl\<close>: \<^verbatim>\<open>operator()(Init&& first, Rest&& rest)\<close> walks \<open>rest\<close> from
  \<^verbatim>\<open>cbegin\<close> to \<^verbatim>\<open>cend\<close> and assigns \<^verbatim>\<open>first = Folder()(first, *it)\<close>.
\<close>

fun foldl_loop :: "('b \<Rightarrow> 'e \<Rightarrow> 'b) \<Rightarrow> 'b \<Rightarrow> 'e list \<Rightarrow> 'b" where
  "foldl_loop Folder first [] = first"
| "foldl_loop Folder first (x # xs) = foldl_loop Folder (Folder first x) xs"

definition foldl_impl :: "('b \<Rightarrow> 'e \<Rightarrow> 'b) \<Rightarrow> 'b \<Rightarrow> 'e list \<Rightarrow> 'b" where
  "foldl_impl Folder first rest = foldl_loop Folder first rest"

text \<open>
  \<^verbatim>\<open>foldr_impl\<close>: \<^verbatim>\<open>operator()(Init&& rest, Rest&& first)\<close>. The first parameter is the
  one that is walked, from \<^verbatim>\<open>crbegin\<close> to \<^verbatim>\<open>crend\<close>, and the second parameter is the
  accumulator: \<^verbatim>\<open>first = Folder()(*it, first)\<close>.
\<close>

fun foldr_loop :: "('e \<Rightarrow> 'b \<Rightarrow> 'b) \<Rightarrow> 'e list \<Rightarrow> 'b \<Rightarrow> 'b" where
  "foldr_loop Folder [] first = first"
| "foldr_loop Folder (x # xs) first = foldr_loop Folder xs (Folder x first)"

definition foldr_impl :: "('e \<Rightarrow> 'b \<Rightarrow> 'b) \<Rightarrow> 'e list \<Rightarrow> 'b \<Rightarrow> 'b" where
  "foldr_impl Folder rest first = foldr_loop Folder (rev rest) first"

section \<open>Notions of the specification\<close>

text \<open>
  The specification describes a sequence by what its members do one after the other.
  \<open>apply_in_order\<close> applies the combinators from left to right, each at the position
  the one before returned, and stops at the first that fails; it returns the values in
  order and the position after the last combinator.
\<close>

fun apply_in_order ::
  "('a, 'c) combinator list \<Rightarrow> 'c \<Rightarrow> ('a data list \<times> 'c) option option" where
  "apply_in_order [] c = Some (Some ([], c))"
| "apply_in_order (X # Xs) c =
     (case X c of
        None \<Rightarrow> None
      | Some None \<Rightarrow> Some None
      | Some (Some (v, c')) \<Rightarrow>
          (case apply_in_order Xs c' of
             None \<Rightarrow> None
           | Some None \<Rightarrow> Some None
           | Some (Some (vs, c'')) \<Rightarrow> Some (Some (v # vs, c''))))"

text \<open>
  The concatenation of the flattened value groups of the values \<open>vs\<close>: every value is
  taken as a group (\<open>as_tuple\<close>), the groups are concatenated, and a group of arity one
  stands for its element (\<open>unwrap_tuple\<close>).
\<close>

definition concat_groups :: "'a data list \<Rightarrow> 'a data" where
  "concat_groups vs = unwrap_tuple (Tuple (concat (map as_tuple vs)))"

definition sequence_spec :: "('a, 'c) combinator list \<Rightarrow> ('a, 'c) combinator" where
  "sequence_spec Xs c =
     (case apply_in_order Xs c of
        None \<Rightarrow> None
      | Some None \<Rightarrow> Some None
      | Some (Some (vs, c')) \<Rightarrow> Some (Some (concat_groups vs, c')))"


text \<open>
  \<open>successive X c vs c'\<close>: starting at \<open>c\<close>, the combinator \<open>X\<close> succeeds \<open>length vs\<close>
  times in a row, each time at the position the success before returned, with the
  values \<open>vs\<close> in this order; the last success returns \<open>c'\<close> (which is \<open>c\<close> when there is
  none), and at \<open>c'\<close> the combinator fails.
\<close>

inductive successive :: "('a, 'c) combinator \<Rightarrow> 'c \<Rightarrow> 'a data list \<Rightarrow> 'c \<Rightarrow> bool"
  for X :: "('a, 'c) combinator" where
  stop: "X c = Some None \<Longrightarrow> successive X c [] c"
| step: "X c = Some (Some (v, c')) \<Longrightarrow> successive X c' vs c'' \<Longrightarrow> successive X c (v # vs) c''"

code_pred successive .

text \<open>
  \<open>reaches X c ca\<close>: the loop of the repetition of \<open>X\<close>, started at \<open>c\<close>, calls \<open>X\<close> at
  \<open>ca\<close>: \<open>ca\<close> is \<open>c\<close> or the position returned by a success of \<open>X\<close> at a position the
  loop reached before.
\<close>

inductive reaches :: "('a, 'c) combinator \<Rightarrow> 'c \<Rightarrow> 'c \<Rightarrow> bool"
  for X :: "('a, 'c) combinator" and c :: 'c where
  start: "reaches X c c"
| onward: "reaches X c ca \<Longrightarrow> X ca = Some (Some (v, cb)) \<Longrightarrow> reaches X c cb"

code_pred reaches .

section \<open>Example inputs\<close>

text \<open>Three tokens, four digits, and two tokens of a type
  \<^verbatim>\<open>std::tuple<std::tuple<int, int>>\<close>.\<close>

definition abc_tokens :: "nat data list" where
  "abc_tokens = [Atom 1, Atom 2, Atom 3]"

definition digit_tokens :: "nat data list" where
  "digit_tokens = [Atom 1, Atom 1, Atom 1, Atom 2]"

definition pair_tokens :: "nat data list" where
  "pair_tokens = [Tuple [Tuple [Atom 1, Atom 2]], Tuple [Tuple [Atom 3, Atom 4]]]"

definition is_one :: "nat data list \<Rightarrow> bool" where
  "is_one args = (args = [Atom 1])"

text \<open>
  A combinator of a grammar author (any function of the right shape becomes one through
  \<^verbatim>\<open>fn_wrap\<close>): it compares the position with the end of the input, which it knows,
  before it consumes a token, and fails at the end.
\<close>

definition checked_one :: "'a data list \<Rightarrow> ('a, nat) combinator" where
  "checked_one toks it = (if it < length toks then cmb_one_fn toks it else Some None)"

declare cmb_rep_loop.simps [code]


section \<open>Properties of the tuple helpers\<close>

lemma as_tuple_unwrap:
  assumes "\<forall>ts. l \<noteq> [Tuple ts]"
  shows "as_tuple (unwrap_tuple (Tuple l)) = l"
proof (cases l)
  case Nil
  then show ?thesis by simp
next
  case (Cons x xs)
  show ?thesis
  proof (cases xs)
    case Nil
    with Cons assms show ?thesis by (cases x) simp_all
  next
    case (Cons y ys)
    with \<open>l = x # xs\<close> show ?thesis by simp
  qed
qed









section \<open>Properties of the sequence\<close>


lemma cmb_seq_fn_fails:
  "apply_in_order Ys c = Some (Some (us, c1)) \<Longrightarrow> X c1 = Some None \<Longrightarrow>
     cmb_seq_fn (Ys @ X # Zs) c = Some None"
proof (induction Ys arbitrary: c us)
  case Nil
  then show ?case by simp
next
  case (Cons Y Ys)
  then show ?case by (auto split: option.splits)
qed


text \<open>
  The sharper condition: the data are the concatenation whenever no proper suffix of the
  values flattens to a single tuple.
\<close>

lemma cmb_seq_fn_succeeds_exact:
  "apply_in_order Xs c = Some (Some (vs, c')) \<Longrightarrow>
     \<forall>n>0. \<forall>ts. concat (map as_tuple (drop n vs)) \<noteq> [Tuple ts] \<Longrightarrow>
     cmb_seq_fn Xs c = Some (Some (concat_groups vs, c'))"
proof (induction Xs arbitrary: c vs)
  case Nil
  then show ?case by (simp add: concat_groups_def make_result_def)
next
  case (Cons X Xs)
  from Cons.prems(1) obtain v ca ws where
    Xc: "X c = Some (Some (v, ca))" and run: "apply_in_order Xs ca = Some (Some (ws, c'))"
    and vs: "vs = v # ws"
    by (auto split: option.splits)
  have suffix: "concat (map as_tuple (drop n ws)) \<noteq> [Tuple ts]" for n ts
    using Cons.prems(2) [rule_format, of "Suc n" ts] vs by simp
  then have "\<forall>n>0. \<forall>ts. concat (map as_tuple (drop n ws)) \<noteq> [Tuple ts]" by blast
  with run have ih: "cmb_seq_fn Xs ca = Some (Some (concat_groups ws, c'))"
    by (rule Cons.IH)
  from suffix [of 0] have "\<forall>ts. concat (map as_tuple ws) \<noteq> [Tuple ts]" by simp
  then have "as_tuple (concat_groups ws) = concat (map as_tuple ws)"
    unfolding concat_groups_def by (rule as_tuple_unwrap)
  with Xc ih vs show ?case
    by (simp add: make_result_def tuple_cat_def concat_groups_def)
qed








section \<open>Properties of the repetition loop\<close>

lemma successive_rep_loop:
  "successive X c vs c' \<Longrightarrow> cmb_rep_loop X acc c = Some (Some (Collection (acc @ vs), c'))"
proof (induction arbitrary: acc rule: successive.induct)
  case (stop c)
  then show ?case by (subst cmb_rep_loop.simps) (simp add: make_result_def)
next
  case (step c v c' vs c'')
  from step.IH [of "acc @ [v]"] step.hyps(1) show ?case
    by (subst cmb_rep_loop.simps) simp
qed

lemma rep_loop_successive:
  "cmb_rep_loop X acc c = Some r \<Longrightarrow>
     \<exists>vs c'. r = Some (Collection (acc @ vs), c') \<and> successive X c vs c'"
proof (induction rule: cmb_rep_loop.raw_induct [rotated 1, consumes 1])
  case (1 loop X acc c r)
  show ?case
  proof (cases "X c")
    case None
    with 1(2) show ?thesis by simp
  next
    case (Some res)
    show ?thesis
    proof (cases res)
      case None
      with Some 1(2) have "r = Some (Collection (acc @ []), c)"
        by (simp add: make_result_def)
      moreover from None Some have "successive X c [] c"
        by (simp add: successive.stop)
      ultimately show ?thesis by blast
    next
      case (Some p)
      obtain d c1 where p: "p = (d, c1)" by (cases p)
      with Some \<open>X c = Some res\<close> have Xc: "X c = Some (Some (d, c1))" by simp
      with 1(2) have "loop X (acc @ [d]) c1 = Some r" by simp
      from 1(1) [OF this] obtain vs c' where
        r: "r = Some (Collection ((acc @ [d]) @ vs), c')" and s: "successive X c1 vs c'"
        by blast
      from Xc s have "successive X c (d # vs) c'" by (rule successive.step)
      with r show ?thesis by auto
    qed
  qed
qed

lemma successive_unique:
  "successive X c vs c' \<Longrightarrow> successive X c ws c'' \<Longrightarrow> ws = vs \<and> c'' = c'"
  using successive_rep_loop [of X c vs c' "[]"] successive_rep_loop [of X c ws c'' "[]"]
  by simp

lemma cmb_rep_fn_never_absent: "cmb_rep_fn X c \<noteq> Some None"
  using rep_loop_successive [of X "[]" c None] by (auto simp: cmb_rep_fn_def)

lemma cmb_rep_fn_iff:
  "cmb_rep_fn X c = Some (Some (Collection vs, c')) \<longleftrightarrow> successive X c vs c'"
  using rep_loop_successive [of X "[]" c "Some (Collection vs, c')"]
    successive_rep_loop [of X c vs c' "[]"]
  by (auto simp: cmb_rep_fn_def)

lemma cmb_rep_fn_shape:
  "cmb_rep_fn X c = Some r \<Longrightarrow> \<exists>vs c'. r = Some (Collection vs, c') \<and> successive X c vs c'"
  using rep_loop_successive [of X "[]" c r] by (simp add: cmb_rep_fn_def)

lemma cmb_rep1_fn_absent_iff:
  "cmb_rep1_fn X c = Some None \<longleftrightarrow> X c = Some None"
proof
  assume a: "cmb_rep1_fn X c = Some None"
  show "X c = Some None"
  proof (cases "cmb_rep_fn X c")
    case None
    with a show ?thesis by (simp add: cmb_rep1_fn_def)
  next
    case (Some r)
    from cmb_rep_fn_shape [OF this] obtain vs c' where
      r: "r = Some (Collection vs, c')" and s: "successive X c vs c'" by blast
    from a Some r have "vs = []" by (simp add: cmb_rep1_fn_def split: if_splits)
    with s show ?thesis by (auto elim: successive.cases)
  qed
next
  assume "X c = Some None"
  then have "successive X c [] c" by (rule successive.stop)
  then have "cmb_rep_fn X c = Some (Some (Collection [], c))" by (simp add: cmb_rep_fn_iff)
  then show "cmb_rep1_fn X c = Some None" by (simp add: cmb_rep1_fn_def)
qed

lemma cmb_rep1_fn_otherwise:
  "X c \<noteq> Some None \<Longrightarrow> cmb_rep1_fn X c = cmb_rep_fn X c"
proof (cases "cmb_rep_fn X c")
  case None
  then show ?thesis by (simp add: cmb_rep1_fn_def)
next
  case (Some r)
  assume n: "X c \<noteq> Some None"
  from cmb_rep_fn_shape [OF Some] obtain vs c' where
    r: "r = Some (Collection vs, c')" and s: "successive X c vs c'" by blast
  from s n have "vs \<noteq> []" by (auto elim: successive.cases)
  with Some r show ?thesis by (simp add: cmb_rep1_fn_def)
qed

lemma cmb_rep_loop_terminates_reached:
  assumes defined: "\<forall>ca. reaches X c ca \<longrightarrow> X ca \<noteq> None"
    and progress: "\<forall>ca v cb. X ca = Some (Some (v, cb)) \<longrightarrow>
      distance_to_end toks cb < distance_to_end toks ca"
  shows "reaches X c ca \<Longrightarrow>
    \<exists>vs c'. successive X ca vs c' \<and> length vs \<le> distance_to_end toks ca"
proof (induction "distance_to_end toks ca" arbitrary: ca rule: less_induct)
  case less
  from defined less.prems have "X ca \<noteq> None" by blast
  then obtain res where Xc: "X ca = Some res" by auto
  show ?case
  proof (cases res)
    case None
    with Xc have "successive X ca [] ca" by (simp add: successive.stop)
    then show ?thesis by force
  next
    case (Some p)
    obtain d cb where p: "p = (d, cb)" by (cases p)
    with Some Xc have step: "X ca = Some (Some (d, cb))" by simp
    with progress have lt: "distance_to_end toks cb < distance_to_end toks ca" by blast
    from less.prems step have "reaches X c cb" by (rule reaches.onward)
    from less.hyps [OF lt this] obtain vs c' where
      s: "successive X cb vs c'" and l: "length vs \<le> distance_to_end toks cb" by blast
    from step s have "successive X ca (d # vs) c'" by (rule successive.step)
    moreover from l lt have "length (d # vs) \<le> distance_to_end toks ca" by simp
    ultimately show ?thesis by blast
  qed
qed

section \<open>Properties of the choice and of the folds\<close>

lemma foldl_impl_left_fold: "foldl_impl f seed es = foldl f seed es"
  unfolding foldl_impl_def by (induction es arbitrary: seed) simp_all

lemma foldr_loop_rev: "foldr_loop f xs acc = foldr f (rev xs) acc"
  by (induction xs arbitrary: acc) simp_all

lemma cmb_alt_fn_absent_iff:
  "cmb_alt_fn Xs c = Some None \<longleftrightarrow> (\<forall>X\<in>set Xs. X c = Some None)"
  by (induction Xs) (auto split: option.splits)

lemma cmb_alt_fn_skips:
  "\<forall>F\<in>set Fs. F c = Some None \<Longrightarrow> cmb_alt_fn (Fs @ Rs) c = cmb_alt_fn Rs c"
  by (induction Fs) simp_all

lemma cmb_alt_fn_first_success:
  "cmb_alt_fn Xs c = Some (Some r) \<Longrightarrow>
     \<exists>Fs X Rs. Xs = Fs @ X # Rs \<and> (\<forall>F\<in>set Fs. F c = Some None) \<and> X c = Some (Some r)"
proof (induction Xs)
  case Nil
  then show ?case by simp
next
  case (Cons First Rest)
  show ?case
  proof (cases "First c = Some None")
    case True
    with Cons.prems have "cmb_alt_fn Rest c = Some (Some r)" by simp
    from Cons.IH [OF this] obtain Fs X Rs where
      "Rest = Fs @ X # Rs" "\<forall>F\<in>set Fs. F c = Some None" "X c = Some (Some r)" by blast
    with True have "First # Rest = (First # Fs) @ X # Rs
        \<and> (\<forall>F\<in>set (First # Fs). F c = Some None) \<and> X c = Some (Some r)" by simp
    then show ?thesis by blast
  next
    case False
    with Cons.prems have "First c = Some (Some r)" by (auto split: option.splits)
    then have "First # Rest = [] @ First # Rest
        \<and> (\<forall>F\<in>set []. F c = Some None) \<and> First c = Some (Some r)" by simp
    then show ?thesis by blast
  qed
qed

lemma apply_in_order_last:
  "apply_in_order (Ys @ [X]) c = Some (Some (vs, c')) \<Longrightarrow>
     \<exists>us cy v. apply_in_order Ys c = Some (Some (us, cy)) \<and> X cy = Some (Some (v, c'))
       \<and> vs = us @ [v]"
proof (induction Ys arbitrary: c vs)
  case Nil
  then show ?case by (auto split: option.splits)
next
  case (Cons Y Ys)
  from Cons.prems obtain w cw ws where
    Y: "Y c = Some (Some (w, cw))" and run: "apply_in_order (Ys @ [X]) cw = Some (Some (ws, c'))"
    and vs: "vs = w # ws"
    by (auto split: option.splits)
  from Cons.IH [OF run] obtain us cy v where
    "apply_in_order Ys cw = Some (Some (us, cy))" "X cy = Some (Some (v, c'))" "ws = us @ [v]"
    by blast
  with Y vs have "apply_in_order (Y # Ys) c = Some (Some (w # us, cy))
      \<and> X cy = Some (Some (v, c')) \<and> vs = (w # us) @ [v]" by simp
  then show ?case by blast
qed

text \<open>
  What the sequence does in every run: it stops at the first member that fails, the
  empty sequence succeeds with the empty group, and the data are the concatenation of
  the flattened value groups unless a proper suffix of the values flattens to a single
  tuple.
\<close>

lemma cmb_seq_fn_in_order:
  "(Xs = Ys @ X # Zs \<and> apply_in_order Ys c = Some (Some (us, cy)) \<and> X cy = Some None
      \<longrightarrow> cmb_seq_fn Xs c = Some None)
   \<and> (apply_in_order Xs c = Some (Some (vs, c'))
        \<and> (\<forall>n>0. \<forall>ts. concat (map as_tuple (drop n vs)) \<noteq> [Tuple ts])
      \<longrightarrow> cmb_seq_fn Xs c = Some (Some (concat_groups vs, c')))
   \<and> cmb_seq_fn [] c = Some (Some (Tuple [], c))"
  using cmb_seq_fn_fails [of Ys c us cy X Zs] cmb_seq_fn_succeeds_exact [of Xs c vs c']
  by (simp add: make_result_def)

lemma cmb_seq_fn_three_tokens:
  "cmb_seq_fn [cmb_one_fn abc_tokens, cmb_one_fn abc_tokens, cmb_one_fn abc_tokens] 0
     = Some (Some (Tuple [Atom 1, Atom 2, Atom 3], 3))"
  by (simp add: cmb_one_fn_def abc_tokens_def make_result_def tuple_cat_def eval_nat_numeral)

section \<open>The claims\<close>

text \<open>
  C1. A sequence applies its members from left to right, each at the position returned by
  the one before; it fails when a member fails; when all succeed, the data are to be
  the concatenation of the flattened value groups of the members in order
  (\<open>sequence_spec\<close>), with the position returned by the last member; the empty sequence
  succeeds with the empty group where it stands. The source does all of this
  (\<open>cmb_seq_fn_in_order\<close> below) except for the data in one case: the recursion unwraps
  the data of the rest and flattens them again, so that values after the first that
  flatten to a single tuple lose one level more than the first value does. With two
  tokens of a type \<^verbatim>\<open>std::tuple<std::tuple<int, int>>\<close>, the sequence of two
  \<^verbatim>\<open>cmb_one_fn\<close> returns \<open>((1, 2), 3, 4)\<close>: the pair of the first token is kept, as the
  concatenation \<open>((1, 2), (3, 4))\<close> has it, and the pair of the second is spliced.
\<close>

theorem sequence_splices_last_value:
  "cmb_seq_fn [cmb_one_fn pair_tokens, cmb_one_fn pair_tokens] 0
     = Some (Some (Tuple [Tuple [Atom 1, Atom 2], Atom 3, Atom 4], 2))
   \<and> sequence_spec [cmb_one_fn pair_tokens, cmb_one_fn pair_tokens] 0
     = Some (Some (Tuple [Tuple [Atom 1, Atom 2], Tuple [Atom 3, Atom 4]], 2))
   \<and> cmb_seq_fn [cmb_one_fn pair_tokens, cmb_one_fn pair_tokens] 0
     \<noteq> sequence_spec [cmb_one_fn pair_tokens, cmb_one_fn pair_tokens] 0"
  by (simp add: sequence_spec_def concat_groups_def cmb_one_fn_def pair_tokens_def
      make_result_def tuple_cat_def eval_nat_numeral)

text \<open>
  C2. If the first alternative succeeds, the choice returns its result as it is, whatever
  the other alternatives are. The choice succeeds with \<open>r\<close> exactly when some alternative
  succeeds with \<open>r\<close> at the given position \<open>c\<close> and all alternatives before it fail at
  the same \<open>c\<close>; it returns the disengaged optional exactly when every alternative
  fails at \<open>c\<close>.
\<close>

theorem ordered_choice_first_success:
  "(First c = Some (Some r) \<longrightarrow> cmb_alt_fn (First # Rest) c = Some (Some r))
   \<and> (cmb_alt_fn Ys c = Some (Some r) \<longleftrightarrow>
        (\<exists>Fs X Rs. Ys = Fs @ X # Rs \<and> (\<forall>F\<in>set Fs. F c = Some None) \<and> X c = Some (Some r)))
   \<and> (cmb_alt_fn Ys c = Some None \<longleftrightarrow> (\<forall>Y\<in>set Ys. Y c = Some None))"
proof (intro conjI impI iffI)
  assume "First c = Some (Some r)"
  then show "cmb_alt_fn (First # Rest) c = Some (Some r)" by simp
next
  assume "cmb_alt_fn Ys c = Some (Some r)"
  then show "\<exists>Fs X Rs. Ys = Fs @ X # Rs \<and> (\<forall>F\<in>set Fs. F c = Some None) \<and> X c = Some (Some r)"
    by (rule cmb_alt_fn_first_success)
next
  assume "\<exists>Fs X Rs. Ys = Fs @ X # Rs \<and> (\<forall>F\<in>set Fs. F c = Some None) \<and> X c = Some (Some r)"
  then obtain Fs X Rs where
    "Ys = Fs @ X # Rs" "\<forall>F\<in>set Fs. F c = Some None" "X c = Some (Some r)" by blast
  then show "cmb_alt_fn Ys c = Some (Some r)" by (simp add: cmb_alt_fn_skips)
next
  assume "cmb_alt_fn Ys c = Some None"
  then show "\<forall>Y\<in>set Ys. Y c = Some None" by (simp add: cmb_alt_fn_absent_iff)
next
  assume "\<forall>Y\<in>set Ys. Y c = Some None"
  then show "cmb_alt_fn Ys c = Some None" by (simp add: cmb_alt_fn_absent_iff)
qed

theorem ordered_choice_first_success_witness:
  "cmb_alt_fn [checked_one abc_tokens, cmb_succ_fn] 0 = Some (Some (Atom 1, 1))
   \<and> cmb_alt_fn [cmb_seq_fn [checked_one abc_tokens, checked_one abc_tokens],
        checked_one abc_tokens] 2 = Some (Some (Atom 3, 3))
   \<and> cmb_alt_fn [checked_one abc_tokens, checked_one abc_tokens] 3 = Some None"
proof -
  let ?one = "checked_one abc_tokens"
  let ?two = "cmb_seq_fn [?one, ?one]"
  have a: "?one 0 = Some (Some (Atom 1, 1))"
    by (simp add: checked_one_def cmb_one_fn_def abc_tokens_def make_result_def)
  have b: "\<exists>Fs X Rs. [?two, ?one] = Fs @ X # Rs \<and> (\<forall>F\<in>set Fs. F 2 = Some None)
      \<and> X 2 = Some (Some (Atom 3, 3))"
  proof (intro exI conjI)
    show "[?two, ?one] = [?two] @ ?one # []" by simp
    show "\<forall>F\<in>set [?two]. F 2 = Some None"
      by (simp add: checked_one_def cmb_one_fn_def abc_tokens_def make_result_def
          eval_nat_numeral)
    show "?one 2 = Some (Some (Atom 3, 3))"
      by (simp add: checked_one_def cmb_one_fn_def abc_tokens_def make_result_def
          eval_nat_numeral)
  qed
  have d: "\<forall>Y\<in>set [?one, ?one]. Y 3 = Some None"
    by (simp add: checked_one_def abc_tokens_def)
  have "cmb_alt_fn [?one, cmb_succ_fn] 0 = Some (Some (Atom 1, 1))"
    by (rule ordered_choice_first_success [where First = "?one" and c = 0,
          THEN conjunct1, THEN mp, OF a])
  moreover have "cmb_alt_fn [?two, ?one] 2 = Some (Some (Atom 3, 3))"
    by (rule ordered_choice_first_success [THEN conjunct2, THEN conjunct1, THEN iffD2, OF b])
  moreover have "cmb_alt_fn [?one, ?one] 3 = Some None"
    by (rule ordered_choice_first_success [THEN conjunct2, THEN conjunct2, THEN iffD2, OF d])
  ultimately show ?thesis by simp
qed




text \<open>
  C4. A sequence of one combinator \<open>X\<close> returns what \<open>X\<close> returns, with the data
  unwrapped when they are a group of arity one: it fails when \<open>X\<close> fails, and it
  succeeds with the position \<open>X\<close> returned.
\<close>

theorem sequence_single:
  "cmb_seq_fn [X] c = map_option (map_option (apfst unwrap_tuple)) (X c)"
proof (cases "X c")
  case None
  then show ?thesis by simp
next
  case (Some r)
  show ?thesis
  proof (cases r)
    case None
    with Some show ?thesis by simp
  next
    case (Some p)
    obtain v c' where p: "p = (v, c')" by (cases p)
    have "unwrap_tuple (Tuple (as_tuple v)) = unwrap_tuple v"
      by (cases v) simp_all
    with Some p \<open>X c = Some r\<close> show ?thesis
      by (simp add: make_result_def tuple_cat_def)
  qed
qed

theorem sequence_single_witness:
  "cmb_seq_fn [cmb_one_fn abc_tokens] 0 = cmb_one_fn abc_tokens 0
   \<and> cmb_seq_fn [cmb_one_fn pair_tokens] 0 = Some (Some (Tuple [Atom 1, Atom 2], 1))
   \<and> cmb_seq_fn [checked_one abc_tokens] 3 = Some None"
  using sequence_single [of "cmb_one_fn abc_tokens" 0]
    sequence_single [of "cmb_one_fn pair_tokens" 0]
    sequence_single [of "checked_one abc_tokens" 3]
  by (simp add: cmb_one_fn_def checked_one_def abc_tokens_def pair_tokens_def make_result_def)

text \<open>
  C5. \<open>Optional(X)\<close> never returns the disengaged optional. When \<open>X\<close> succeeds with
  \<open>(v, c')\<close> it returns the engaged \<open>std::optional\<close> of \<open>v\<close> and \<open>c'\<close>; when \<open>X\<close> fails it
  returns the disengaged \<open>std::optional\<close> and the position \<open>c\<close> it was given; so it
  succeeds whenever the call of \<open>X\<close> returns.
\<close>

theorem optional_never_fails:
  "cmb_opt_fn X c \<noteq> Some None
   \<and> (X c = Some (Some (v, c')) \<longrightarrow> cmb_opt_fn X c = Some (Some (Optional (Some v), c')))
   \<and> (X c = Some None \<longrightarrow> cmb_opt_fn X c = Some (Some (Optional None, c)))
   \<and> (X c \<noteq> None \<longrightarrow> (\<exists>r. cmb_opt_fn X c = Some (Some r)))"
  by (auto simp: cmb_opt_fn_def make_result_def split: option.splits)

theorem optional_never_fails_witness:
  "cmb_opt_fn (checked_one abc_tokens) 0 = Some (Some (Optional (Some (Atom 1)), 1))
   \<and> cmb_opt_fn (checked_one abc_tokens) 3 = Some (Some (Optional None, 3))"
proof -
  let ?one = "checked_one abc_tokens"
  have a: "?one 0 = Some (Some (Atom 1, 1))"
    by (simp add: checked_one_def cmb_one_fn_def abc_tokens_def make_result_def)
  have b: "?one 3 = Some None"
    by (simp add: checked_one_def abc_tokens_def)
  have "cmb_opt_fn ?one 0 = Some (Some (Optional (Some (Atom 1)), 1))"
    by (rule optional_never_fails [where X = "?one" and c = 0,
          THEN conjunct2, THEN conjunct1, THEN mp, OF a])
  moreover have "cmb_opt_fn ?one 3 = Some (Some (Optional None, 3))"
    by (rule optional_never_fails [where X = "?one" and c = 3,
          THEN conjunct2, THEN conjunct2, THEN conjunct1, THEN mp, OF b])
  ultimately show ?thesis by simp
qed

text \<open>
  C6. \<open>RepeatZeroOrMore(X)\<close> never returns the disengaged optional. What it returns is
  the collection of the values of the successive successes of \<open>X\<close> from \<open>c\<close> on, in
  order, with the position the last success returned (\<open>c\<close> when there is none); and
  it does return this whenever \<open>X\<close> fails after finitely many successes.
  \<open>RepeatOneOrMore(X)\<close> returns the disengaged optional exactly when \<open>X\<close> fails at \<open>c\<close>,
  and is \<open>RepeatZeroOrMore(X)\<close> otherwise.
\<close>

theorem repeat_collects:
  "cmb_rep_fn X c \<noteq> Some None
   \<and> (cmb_rep_fn X c = Some r \<longrightarrow>
        (\<exists>vs c'. r = Some (Collection vs, c') \<and> successive X c vs c'))
   \<and> (successive X c vs c' \<longrightarrow> cmb_rep_fn X c = Some (Some (Collection vs, c')))
   \<and> (cmb_rep1_fn X c = Some None \<longleftrightarrow> X c = Some None)
   \<and> (X c \<noteq> Some None \<longrightarrow> cmb_rep1_fn X c = cmb_rep_fn X c)"
proof (intro conjI impI)
  show "cmb_rep_fn X c \<noteq> Some None" by (rule cmb_rep_fn_never_absent)
next
  assume "cmb_rep_fn X c = Some r"
  then show "\<exists>vs c'. r = Some (Collection vs, c') \<and> successive X c vs c'"
    by (rule cmb_rep_fn_shape)
next
  assume "successive X c vs c'"
  then show "cmb_rep_fn X c = Some (Some (Collection vs, c'))"
    by (simp add: cmb_rep_fn_iff)
next
  show "cmb_rep1_fn X c = Some None \<longleftrightarrow> X c = Some None"
    by (rule cmb_rep1_fn_absent_iff)
next
  assume "X c \<noteq> Some None"
  then show "cmb_rep1_fn X c = cmb_rep_fn X c" by (rule cmb_rep1_fn_otherwise)
qed

theorem repeat_collects_witness:
  "cmb_rep_fn (cmb_map_fn (cmb_one_fn digit_tokens) (Fallible (filter_impl is_one))) 0
     = Some (Some (Collection [Atom 1, Atom 1, Atom 1], 3))
   \<and> successive (cmb_map_fn (cmb_one_fn digit_tokens) (Fallible (filter_impl is_one))) 0
        [Atom 1, Atom 1, Atom 1] 3
   \<and> cmb_rep1_fn (cmb_map_fn (cmb_one_fn digit_tokens) (Fallible (filter_impl is_one))) 0
     = Some (Some (Collection [Atom 1, Atom 1, Atom 1], 3))
   \<and> cmb_rep1_fn (cmb_map_fn (cmb_one_fn digit_tokens) (Fallible (filter_impl is_one))) 3
     = Some None"
proof -
  let ?X = "cmb_map_fn (cmb_one_fn digit_tokens) (Fallible (filter_impl is_one))"
  have X0: "?X 0 = Some (Some (Atom 1, 1))" and X1: "?X 1 = Some (Some (Atom 1, 2))"
    and X2: "?X 2 = Some (Some (Atom 1, 3))" and X3: "?X 3 = Some None"
    by (simp_all add: cmb_map_impl_expected_def cmb_one_fn_def filter_impl_def is_one_def
        digit_tokens_def make_result_def eval_nat_numeral)
  have "successive ?X 3 [] 3"
    using X3 by (rule successive.stop)
  with X2 have "successive ?X 2 [Atom 1] 3"
    by (rule successive.step)
  with X1 have "successive ?X 1 [Atom 1, Atom 1] 3"
    by (rule successive.step)
  with X0 have s: "successive ?X 0 [Atom 1, Atom 1, Atom 1] 3"
    by (rule successive.step)
  have r: "cmb_rep_fn ?X 0 = Some (Some (Collection [Atom 1, Atom 1, Atom 1], 3))"
    by (rule repeat_collects [where X = "?X" and c = 0,
          THEN conjunct2, THEN conjunct2, THEN conjunct1, THEN mp, OF s])
  have n: "?X 0 \<noteq> Some None" using X0 by simp
  have "cmb_rep1_fn ?X 0 = cmb_rep_fn ?X 0"
    by (rule repeat_collects [where X = "?X" and c = 0,
          THEN conjunct2, THEN conjunct2, THEN conjunct2, THEN conjunct2, THEN mp, OF n])
  moreover have "cmb_rep1_fn ?X 3 = Some None"
    by (rule repeat_collects [where X = "?X" and c = 3,
          THEN conjunct2, THEN conjunct2, THEN conjunct2, THEN conjunct1, THEN iffD2, OF X3])
  ultimately show ?thesis using r s by simp
qed

text \<open>
  C7. The map with a mapper that returns an \<^verbatim>\<open>expected\<close>: when \<open>X\<close> succeeds with
  \<open>(v, c')\<close> and the mapper, applied to the value group of \<open>v\<close>, yields nothing, the map
  returns the disengaged optional; when the mapper yields \<open>w\<close>, the map returns \<open>w\<close>
  (unwrapped when it is a group of arity one) and \<open>c'\<close>; when \<open>X\<close> fails, the map returns
  the disengaged optional whatever the mapper \<open>g\<close> is, also one whose call would never
  return: the mapper is not called.
\<close>

theorem fallible_map_overrides:
  "(X c = Some (Some (v, c')) \<and> f (as_tuple v) = Some None
      \<longrightarrow> cmb_map_fn X (Fallible f) c = Some None)
   \<and> (X c = Some (Some (v, c')) \<and> f (as_tuple v) = Some (Some w)
      \<longrightarrow> cmb_map_fn X (Fallible f) c = Some (Some (unwrap_tuple w, c')))
   \<and> (X c = Some None \<longrightarrow> cmb_map_fn X (Fallible g) c = Some None)"
  by (simp add: cmb_map_impl_expected_def make_result_def)

theorem fallible_map_overrides_witness:
  "cmb_map_fn (cmb_one_fn digit_tokens) (Fallible (filter_impl is_one)) 3 = Some None
   \<and> cmb_map_fn (cmb_one_fn digit_tokens) (Fallible (filter_impl is_one)) 0
       = Some (Some (Atom 1, 1))
   \<and> cmb_map_fn (checked_one digit_tokens) (Fallible (\<lambda>args. None)) 4 = Some None"
proof -
  let ?one = "cmb_one_fn digit_tokens"
  let ?f = "filter_impl is_one"
  have a: "?one 3 = Some (Some (Atom 2, 4)) \<and> ?f (as_tuple (Atom 2)) = Some None"
    by (simp add: cmb_one_fn_def filter_impl_def is_one_def digit_tokens_def make_result_def
        eval_nat_numeral)
  have b: "?one 0 = Some (Some (Atom 1, 1)) \<and> ?f (as_tuple (Atom 1)) = Some (Some (Atom 1))"
    by (simp add: cmb_one_fn_def filter_impl_def is_one_def digit_tokens_def make_result_def)
  have c: "checked_one digit_tokens 4 = Some None"
    by (simp add: checked_one_def digit_tokens_def)
  have "cmb_map_fn ?one (Fallible ?f) 3 = Some None"
    by (rule fallible_map_overrides [where X = "?one" and c = 3 and f = "?f",
          THEN conjunct1, THEN mp, OF a])
  moreover have "cmb_map_fn ?one (Fallible ?f) 0 = Some (Some (unwrap_tuple (Atom 1), 1))"
    by (rule fallible_map_overrides [where X = "?one" and c = 0 and f = "?f",
          THEN conjunct2, THEN conjunct1, THEN mp, OF b])
  moreover have "cmb_map_fn (checked_one digit_tokens) (Fallible (\<lambda>args. None)) 4 = Some None"
    by (rule fallible_map_overrides [where X = "checked_one digit_tokens" and c = 4,
          THEN conjunct2, THEN conjunct2, THEN mp, OF c])
  ultimately show ?thesis by simp
qed

text \<open>
  C8, amended. On the empty token stream \<^verbatim>\<open>cmb_one_fn\<close> dereferences the end iterator:
  the call at the start position has no defined return value, and so have the calls of
  \<open>RepeatZeroOrMore(ConsumeOne)\<close> and \<open>RepeatOneOrMore(ConsumeOne)\<close> there. For every
  combinator \<open>X\<close> that fails at a position \<open>c\<close> (a token consumer with an end check does,
  at the start of the empty stream), \<open>RepeatZeroOrMore(X)\<close> yields the empty collection
  and \<open>c\<close>, and \<open>RepeatOneOrMore(X)\<close> fails.
\<close>

theorem repeat_at_end_of_input:
  "cmb_one_fn ([] :: 'a data list) 0 = None
   \<and> cmb_rep_fn (cmb_one_fn ([] :: 'a data list)) 0 = None
   \<and> cmb_rep1_fn (cmb_one_fn ([] :: 'a data list)) 0 = None
   \<and> (X c = Some None \<longrightarrow>
        cmb_rep_fn X c = Some (Some (Collection [], c)) \<and> cmb_rep1_fn X c = Some None)"
proof -
  have a: "cmb_rep_fn (cmb_one_fn ([] :: 'a data list)) 0 = None"
    by (simp add: cmb_rep_fn_def cmb_rep_loop.simps cmb_one_fn_def)
  have b: "cmb_rep_fn X c = Some (Some (Collection [], c))" if "X c = Some None"
    using that by (simp add: cmb_rep_fn_def cmb_rep_loop.simps make_result_def)
  show ?thesis
    using a b by (simp add: cmb_rep1_fn_def cmb_one_fn_def)
qed

theorem repeat_at_end_of_input_witness:
  "cmb_rep_fn (checked_one ([] :: nat data list)) 0 = Some (Some (Collection [], 0))
   \<and> cmb_rep1_fn (checked_one ([] :: nat data list)) 0 = Some None"
proof -
  have "checked_one ([] :: nat data list) 0 = Some None"
    by (simp add: checked_one_def)
  then show ?thesis
    by (rule repeat_at_end_of_input [where X = "checked_one []" and c = 0,
          THEN conjunct2, THEN conjunct2, THEN conjunct2, THEN mp])
qed

text \<open>
  On the empty stream the two repetitions of \<^verbatim>\<open>cmb_one_fn\<close> do not return the empty
  collection and the disengaged optional: they have no defined return value.
\<close>

theorem repeat_consume_one_empty_counterexample:
  "\<not> (cmb_rep_fn (cmb_one_fn ([] :: nat data list)) 0 = Some (Some (Collection [], 0))
      \<and> cmb_rep1_fn (cmb_one_fn ([] :: nat data list)) 0 = Some None)"
  by (simp add: cmb_rep_fn_def cmb_rep_loop.simps cmb_one_fn_def)

text \<open>
  C9, amended. \<^verbatim>\<open>foldr_impl\<close> reduces a (collection, initial) pair: the collection is
  its first argument and the seed its second. For every seed and every collection
  \<open>[e1, ..., en]\<close> it returns \<open>combine e1 (combine e2 (... (combine en seed)))\<close>, which is
  \<open>foldr\<close>: the collection is walked from its last element to its first, the seed is
  the rightmost accumulator, and there is no failure.
\<close>

theorem foldr_impl_right_fold:
  "foldr_impl combine es seed = foldr combine es seed
   \<and> foldr_impl combine [e1, e2, e3] seed = combine e1 (combine e2 (combine e3 seed))"
  by (simp add: foldr_impl_def foldr_loop_rev)

theorem foldr_impl_right_fold_witness:
  "foldr_impl (#) [1, 2] [10 :: nat] = [1, 2, 10]"
  using foldr_impl_right_fold [of "(#)" "[1, 2]" "[10 :: nat]"] by simp

text \<open>
  Called with the seed \<open>[10]\<close> first and the collection \<open>[1, 2]\<close> second, \<^verbatim>\<open>foldr_impl\<close>
  walks the seed and accumulates in the collection.
\<close>

theorem foldr_impl_argument_order_counterexample:
  "foldr_impl (#) [10 :: nat] [1, 2] = [10, 1, 2]
   \<and> foldr (#) [1, 2] [10 :: nat] = [1, 2, 10]
   \<and> foldr_impl (#) [10 :: nat] [1, 2] \<noteq> foldr (#) [1, 2] [10]"
  by (simp add: foldr_impl_def)

text \<open>
  C10, amended. Let every success of \<open>X\<close> return a position strictly closer to the end of
  the input than the one it was given, and let the call of \<open>X\<close> have a defined return
  value at every position the loop reaches from \<open>c\<close> (\<^verbatim>\<open>cmb_one_fn\<close> has none at the end
  of the input). Then the loop of \<open>RepeatZeroOrMore(X)\<close> at \<open>c\<close> returns: after
  \<open>length vs\<close> successful iterations, which are at most the distance from \<open>c\<close> to the
  end of the input, and one failing iteration, with the collection \<open>vs\<close>.
\<close>

theorem repeat_terminates:
  assumes "\<forall>ca v cb. X ca = Some (Some (v, cb)) \<longrightarrow>
           distance_to_end toks cb < distance_to_end toks ca"
    and "\<forall>ca. reaches X c ca \<longrightarrow> X ca \<noteq> None"
  shows "\<exists>vs c'. cmb_rep_fn X c = Some (Some (Collection vs, c'))
           \<and> successive X c vs c' \<and> length vs \<le> distance_to_end toks c"
proof -
  have "reaches X c c" by (rule reaches.start)
  from cmb_rep_loop_terminates_reached [OF assms(2) assms(1) this] obtain vs c' where
    s: "successive X c vs c'" and l: "length vs \<le> distance_to_end toks c" by blast
  from s have "cmb_rep_fn X c = Some (Some (Collection vs, c'))"
    by (simp add: cmb_rep_fn_iff)
  with s l show ?thesis by blast
qed

theorem repeat_terminates_witness:
  "\<exists>vs c'. cmb_rep_fn (cmb_map_fn (cmb_one_fn digit_tokens) (Fallible (filter_impl is_one))) 0
       = Some (Some (Collection vs, c'))
     \<and> successive (cmb_map_fn (cmb_one_fn digit_tokens) (Fallible (filter_impl is_one))) 0 vs c'
     \<and> length vs \<le> 4"
proof -
  let ?X = "cmb_map_fn (cmb_one_fn digit_tokens) (Fallible (filter_impl is_one))"
  have X: "?X 0 = Some (Some (Atom 1, 1))" "?X 1 = Some (Some (Atom 1, 2))"
    "?X 2 = Some (Some (Atom 1, 3))" "?X 3 = Some None"
    by (simp_all add: cmb_map_impl_expected_def cmb_one_fn_def filter_impl_def is_one_def
        digit_tokens_def make_result_def eval_nat_numeral)
  have progress: "\<forall>ca v cb. ?X ca = Some (Some (v, cb)) \<longrightarrow>
      distance_to_end digit_tokens cb < distance_to_end digit_tokens ca"
    by (auto simp: cmb_map_impl_expected_def cmb_one_fn_def make_result_def
        distance_to_end_def split: if_splits option.splits)
  have bound: "ca \<le> 3" if "reaches ?X 0 ca" for ca
    using that
  proof (induction rule: reaches.induct)
    case start
    show ?case by simp
  next
    case (onward ca v cb)
    from onward.IH have "ca = 0 \<or> ca = 1 \<or> ca = 2 \<or> ca = 3" by arith
    with onward.hyps(2) X show ?case by auto
  qed
  have defined: "\<forall>ca. reaches ?X 0 ca \<longrightarrow> ?X ca \<noteq> None"
  proof (intro allI impI)
    fix ca assume "reaches ?X 0 ca"
    then have "ca = 0 \<or> ca = 1 \<or> ca = 2 \<or> ca = 3" using bound [of ca] by arith
    with X show "?X ca \<noteq> None" by auto
  qed
  have d: "distance_to_end digit_tokens 0 = 4"
    by (simp add: distance_to_end_def digit_tokens_def)
  from repeat_terminates [OF progress defined] show ?thesis
    unfolding d .
qed

text \<open>
  \<^verbatim>\<open>cmb_one_fn\<close> makes strict progress whenever it succeeds, and its repetition over
  three tokens has no defined return value: the fourth call dereferences the end.
\<close>

theorem repeat_terminates_counterexample:
  "\<not> ((\<forall>ca v cb. cmb_one_fn abc_tokens ca = Some (Some (v, cb)) \<longrightarrow>
          distance_to_end abc_tokens cb < distance_to_end abc_tokens ca)
        \<longrightarrow> (\<exists>r. cmb_rep_fn (cmb_one_fn abc_tokens) 0 = Some r))"
proof -
  have "\<forall>ca v cb. cmb_one_fn abc_tokens ca = Some (Some (v, cb)) \<longrightarrow>
      distance_to_end abc_tokens cb < distance_to_end abc_tokens ca"
    by (auto simp: cmb_one_fn_def make_result_def distance_to_end_def split: if_splits)
  moreover have "cmb_rep_fn (cmb_one_fn abc_tokens) 0 = None"
    by (simp add: cmb_rep_fn_def cmb_rep_loop.simps cmb_one_fn_def abc_tokens_def
        make_result_def)
  ultimately show ?thesis by simp
qed

end
